theory Spec2Isabelle
  imports Complex_Main
begin

section \<open>The file browser of \<open>src/components/FileList.tsx\<close>\<close>

text \<open>
  The component fetches a flat list of stored objects once, groups the keys under the
  current path into folders and files, and renders a breadcrumb and a table.
  A JavaScript string is modelled as a \<^typ>\<open>string\<close> (a list of code units); the
  operations used by the component (\<open>startsWith\<close>, \<open>slice\<close>, \<open>split\<close>, \<open>join\<close>,
  concatenation) work unit by unit, so they are list functions.
\<close>

subsection \<open>String and array primitives\<close>

text \<open>\<open>s.startsWith(p)\<close>: the first \<open>p.length\<close> units of \<open>s\<close> are \<open>p\<close>.\<close>

definition startsWith :: "string \<Rightarrow> string \<Rightarrow> bool" where
  "startsWith s p = (take (length p) s = p)"

text \<open>\<open>s.slice(n)\<close> for \<open>n \<ge> 0\<close>: the units from index \<open>n\<close> on; empty past the end.\<close>

definition slice :: "string \<Rightarrow> nat \<Rightarrow> string" where
  "slice s n = drop n s"

text \<open>
  \<open>s.split(sep)\<close> for a separator of one unit: the pieces between the separators.
  The result is never empty: \<open>"".split("/")\<close> is \<open>[""]\<close> and \<open>"a/".split("/")\<close> is
  \<open>["a", ""]\<close>.
\<close>

fun split :: "char \<Rightarrow> string \<Rightarrow> string list" where
  "split sep [] = [[]]"
| "split sep (c # cs) =
     (if c = sep then [] # split sep cs
      else (c # hd (split sep cs)) # tl (split sep cs))"

text \<open>\<open>xs.join(sep)\<close>: the elements with \<open>sep\<close> between them; \<open>""\<close> for no element.\<close>

fun join :: "string \<Rightarrow> string list \<Rightarrow> string" where
  "join sep [] = []"
| "join sep [x] = x"
| "join sep (x # y # ys) = x @ sep @ join sep (y # ys)"

subsection \<open>Formatting helpers\<close>

text \<open>The decimal digits of a natural number, as \<open>String(n)\<close> prints an integer.\<close>

fun show_nat :: "nat \<Rightarrow> string" where
  "show_nat n =
     (if n < 10 then [''0123456789'' ! n]
      else show_nat (n div 10) @ [''0123456789'' ! (n mod 10)])"

declare show_nat.simps [simp del]

definition show_int :: "int \<Rightarrow> string" where
  "show_int i = (if i < 0 then CHR ''-'' # show_nat (nat (- i)) else show_nat (nat i))"

text \<open>
  \<open>x.toFixed(1)\<close> for \<open>0 \<le> x < 10^21\<close>: with \<open>n\<close> the integer for which \<open>n / 10 - x\<close> is
  closest to zero (the larger one on a tie), the digits of \<open>n\<close> with a point before
  the last one. The argument is the exact value of the number.
\<close>

definition toFixed1 :: "rat \<Rightarrow> string" where
  "toFixed1 x =
     (let n = nat \<lfloor>10 * x + 1 / 2\<rfloor>
      in show_nat (n div 10) @ ''.'' @ show_nat (n mod 10))"

text \<open>
  \<open>formatSize\<close> (lines 9 to 13) on an integer byte count. The quotients \<open>bytes / 1024\<close>
  and \<open>bytes / 1024 / 1024\<close> divide by a power of two, so for an integer below \<open>2^53\<close>
  the floating-point quotient is the exact rational.
\<close>

definition formatSize :: "int \<Rightarrow> string" where
  "formatSize bytes =
     (if bytes < 1024 then show_int bytes @ '' B''
      else if bytes < 1024 * 1024 then toFixed1 (of_int bytes / 1024) @ '' KB''
      else toFixed1 (of_int bytes / 1024 / 1024) @ '' MB'')"

subsection \<open>The data model\<close>

record FileItem =
  Key :: string
  Size :: int
  LastModified :: string

datatype entry_type = Folder | File

record DisplayItem =
  type :: entry_type
  name :: string
  fullPath :: string
  item :: "FileItem option"

subsection \<open>The hierarchy grouper (lines 57 to 87)\<close>

text \<open>Line 57: the records whose key starts with the current path.\<close>

definition filtered :: "string \<Rightarrow> FileItem list \<Rightarrow> FileItem list" where
  "filtered currentPath files = filter (\<lambda>f. startsWith (Key f) currentPath) files"

text \<open>
  Lines 67 to 87: the loop over the filtered records, with the set \<open>seen\<close> and the array
  \<open>displayItems\<close> it updates as its state.
\<close>

fun loop :: "string \<Rightarrow> FileItem list \<Rightarrow> string set \<times> DisplayItem list
    \<Rightarrow> string set \<times> DisplayItem list" where
  "loop currentPath [] (seen, displayItems) = (seen, displayItems)"
| "loop currentPath (f # fs) (seen, displayItems) =
     (let rest = slice (Key f) (length currentPath);
          parts = split CHR ''/'' rest;
          nextSegment = hd parts;
          remaining = tl parts
      in if nextSegment = [] \<or> nextSegment \<in> seen
         then loop currentPath fs (seen, displayItems)
         else loop currentPath fs
           (insert nextSegment seen,
            displayItems @
              [if length remaining > 0
               then \<lparr>type = Folder, name = nextSegment,
                     fullPath = currentPath @ nextSegment @ ''/'', item = None\<rparr>
               else \<lparr>type = File, name = nextSegment,
                     fullPath = Key f, item = Some f\<rparr>]))"

definition displayItems :: "string \<Rightarrow> FileItem list \<Rightarrow> DisplayItem list" where
  "displayItems currentPath files = snd (loop currentPath (filtered currentPath files) ({}, []))"

text \<open>
  The child name a record yields under a path (lines 68 and 69) and the entry pushed
  for it (lines 73 to 86), named so that the properties of the loop can refer to them.
\<close>

definition childName :: "string \<Rightarrow> FileItem \<Rightarrow> string" where
  "childName currentPath f = hd (split CHR ''/'' (slice (Key f) (length currentPath)))"

definition entryFor :: "string \<Rightarrow> FileItem \<Rightarrow> DisplayItem" where
  "entryFor currentPath f =
     (if length (tl (split CHR ''/'' (slice (Key f) (length currentPath)))) > 0
      then \<lparr>type = Folder, name = childName currentPath f,
            fullPath = currentPath @ childName currentPath f @ ''/'', item = None\<rparr>
      else \<lparr>type = File, name = childName currentPath f,
            fullPath = Key f, item = Some f\<rparr>)"

text \<open>Shapes of keys: a key that ends with a slash, a key with two slashes in a row.\<close>

definition endsWithSlash :: "string \<Rightarrow> bool" where
  "endsWithSlash s = (s \<noteq> [] \<and> last s = CHR ''/'')"

fun hasDoubleSlash :: "string \<Rightarrow> bool" where
  "hasDoubleSlash (a # b # cs) = ((a = CHR ''/'' \<and> b = CHR ''/'') \<or> hasDoubleSlash (b # cs))"
| "hasDoubleSlash _ = False"

subsection \<open>The path navigator (line 56 and lines 115 to 128)\<close>

definition pathSegments :: "string \<Rightarrow> string list" where
  "pathSegments currentPath =
     (if currentPath \<noteq> [] then filter (\<lambda>s. s \<noteq> []) (split CHR ''/'' currentPath) else [])"

text \<open>Each breadcrumb is the label \<open>seg\<close> with the path \<open>pathUpTo\<close> its click navigates to.\<close>

definition breadcrumb :: "string \<Rightarrow> (string \<times> string) list" where
  "breadcrumb currentPath =
     map (\<lambda>idx. (pathSegments currentPath ! idx,
                 join ''/'' (take (idx + 1) (pathSegments currentPath)) @ ''/''))
       [0..<length (pathSegments currentPath)]"

subsection \<open>The component: state, the fetch on mount, rendering\<close>

text \<open>
  The three \<open>useState\<close> cells, with the two effects on the outside world the component
  has: the lines written by \<open>console.error\<close> and the number of \<open>fetch\<close> calls issued.
\<close>

record component =
  files :: "FileItem list"
  loading :: bool
  currentPath :: string
  console :: "(string \<times> string) list"
  fetches :: nat

definition initial :: component where
  "initial = \<lparr>files = [], loading = True, currentPath = [], console = [], fetches = 0\<rparr>"

text \<open>Lines 42 to 44: the effect with no dependency runs once and calls \<open>fetch\<close>.\<close>

definition mount :: "component \<Rightarrow> component" where
  "mount s = s\<lparr>fetches := fetches s + 1\<rparr>"

text \<open>
  How the promise chain of lines 44 to 53 settles: \<open>fetch\<close> rejects, or \<open>res.json()\<close>
  rejects on a body that is not JSON, or the parsed data arrives. Both rejections reach
  the one \<open>catch\<close>.
\<close>

datatype fetch_outcome = NetworkError string | NotJson string | Json "FileItem list"

fun settle :: "fetch_outcome \<Rightarrow> component \<Rightarrow> component" where
  "settle (Json data) s = s\<lparr>files := data, loading := False\<rparr>"
| "settle (NetworkError err) s =
     s\<lparr>console := console s @ [(''Failed to fetch files:'', err)], loading := False\<rparr>"
| "settle (NotJson err) s =
     s\<lparr>console := console s @ [(''Failed to fetch files:'', err)], loading := False\<rparr>"

text \<open>The click handlers of lines 110, 122 and 146 all call \<open>setCurrentPath\<close>.\<close>

definition setCurrentPath :: "string \<Rightarrow> component \<Rightarrow> component" where
  "setCurrentPath p s = s\<lparr>currentPath := p\<rparr>"

text \<open>One render: the grouper on the state, and what is shown (lines 89 to 183).\<close>

definition grouper :: "component \<Rightarrow> DisplayItem list" where
  "grouper s = displayItems (currentPath s) (files s)"

datatype view = LoadingView | Listing "(string \<times> string) list" "DisplayItem list"

definition render :: "component \<Rightarrow> view" where
  "render s = (if loading s then LoadingView else Listing (breadcrumb (currentPath s)) (grouper s))"

subsection \<open>One invocation of the grouper on the memory of an earlier one\<close>





subsection \<open>Example data\<close>

text \<open>Three records with the keys \<open>a/b.txt\<close>, \<open>a/c.txt\<close> and \<open>d.txt\<close>.\<close>

definition scenario_files :: "FileItem list" where
  "scenario_files =
     [\<lparr>Key = ''a/b.txt'', Size = 512, LastModified = ''2024-01-01T00:00:00Z''\<rparr>,
      \<lparr>Key = ''a/c.txt'', Size = 2048, LastModified = ''2024-01-02T00:00:00Z''\<rparr>,
      \<lparr>Key = ''d.txt'', Size = 5242880, LastModified = ''2024-01-03T00:00:00Z''\<rparr>]"

section \<open>Properties\<close>

subsection \<open>Splitting\<close>

lemma split_not_Nil [simp]: "split sep s \<noteq> []"
  by (induction s) auto

lemma tl_split_decomp:
  "tl (split sep s) \<noteq> [] \<Longrightarrow> \<exists>r. s = hd (split sep s) @ sep # r"
  by (induction s) auto

lemma hasDoubleSlash_append: "hasDoubleSlash (xs @ CHR ''/'' # CHR ''/'' # ys)"
  by (induction xs rule: hasDoubleSlash.induct) auto

subsection \<open>The loop\<close>

text \<open>One iteration, in terms of the child name and the entry of the record.\<close>

lemma loop_Cons:
  "loop cp (f # fs) (seen, items) =
     (if childName cp f = [] \<or> childName cp f \<in> seen then loop cp fs (seen, items)
      else loop cp fs (insert (childName cp f) seen, items @ [entryFor cp f]))"
  by (simp add: Let_def childName_def entryFor_def)

declare loop.simps(2) [simp del]

lemma name_entryFor [simp]: "name (entryFor cp f) = childName cp f"
  by (simp add: entryFor_def)

lemma loop_member:
  "e \<in> set (snd (loop cp fs (seen, items))) \<Longrightarrow>
   e \<in> set items \<or>
   (\<exists>f. find (\<lambda>g. childName cp g = name e) fs = Some f \<and> e = entryFor cp f
        \<and> name e \<notin> seen \<and> name e \<noteq> [])"
proof (induction fs arbitrary: seen items)
  case Nil
  then show ?case by simp
next
  case (Cons f fs)
  let ?P = "\<lambda>g. childName cp g = name e"
  show ?case
  proof (cases "childName cp f = [] \<or> childName cp f \<in> seen")
    case True
    with Cons.prems have "e \<in> set (snd (loop cp fs (seen, items)))"
      by (simp only: loop_Cons if_True)
    from Cons.IH [OF this] show ?thesis
    proof
      assume "e \<in> set items"
      then show ?thesis ..
    next
      assume "\<exists>f. find ?P fs = Some f \<and> e = entryFor cp f \<and> name e \<notin> seen \<and> name e \<noteq> []"
      then obtain f' where f': "find ?P fs = Some f'" "e = entryFor cp f'"
          "name e \<notin> seen" "name e \<noteq> []"
        by blast
      from True f'(3,4) have "\<not> ?P f" by metis
      then have "find ?P (f # fs) = Some f'" using f'(1) by simp
      with f'(2,3,4) show ?thesis by blast
    qed
  next
    case False
    with Cons.prems
    have "e \<in> set (snd (loop cp fs (insert (childName cp f) seen, items @ [entryFor cp f])))"
      by (simp only: loop_Cons if_False)
    from Cons.IH [OF this] show ?thesis
    proof
      assume "e \<in> set (items @ [entryFor cp f])"
      then consider "e \<in> set items" | "e = entryFor cp f" by auto
      then show ?thesis
      proof cases
        case 1
        then show ?thesis ..
      next
        case 2
        then have "?P f" by simp
        then have "find ?P (f # fs) = Some f" by simp
        moreover from 2 False have "name e \<notin> seen" "name e \<noteq> []" by simp_all
        ultimately show ?thesis using 2 by blast
      qed
    next
      assume "\<exists>f'. find ?P fs = Some f' \<and> e = entryFor cp f'
          \<and> name e \<notin> insert (childName cp f) seen \<and> name e \<noteq> []"
      then obtain f' where f': "find ?P fs = Some f'" "e = entryFor cp f'"
          "name e \<notin> insert (childName cp f) seen" "name e \<noteq> []"
        by blast
      from f'(3) have "\<not> ?P f" by auto
      then have "find ?P (f # fs) = Some f'" using f'(1) by simp
      with f'(2,3,4) show ?thesis by blast
    qed
  qed
qed

lemma loop_distinct:
  "distinct (map name items) \<Longrightarrow> name ` set items \<subseteq> seen \<Longrightarrow>
   distinct (map name (snd (loop cp fs (seen, items)))) \<and>
   name ` set (snd (loop cp fs (seen, items))) \<subseteq> fst (loop cp fs (seen, items))"
proof (induction fs arbitrary: seen items)
  case Nil
  then show ?case by simp
next
  case (Cons f fs)
  show ?case
  proof (cases "childName cp f = [] \<or> childName cp f \<in> seen")
    case True
    then show ?thesis using Cons.IH [OF Cons.prems] by (simp only: loop_Cons if_True)
  next
    case False
    have "distinct (map name (items @ [entryFor cp f]))"
      using Cons.prems False by auto
    moreover have "name ` set (items @ [entryFor cp f]) \<subseteq> insert (childName cp f) seen"
      using Cons.prems by auto
    ultimately show ?thesis using False Cons.IH by (simp only: loop_Cons if_False)
  qed
qed

lemma loop_length:
  "length (snd (loop cp fs (seen, items))) \<le> length items + length fs"
proof (induction fs arbitrary: seen items)
  case Nil
  then show ?case by simp
next
  case (Cons f fs)
  show ?case
    using Cons.IH [where seen = seen and items = items]
      Cons.IH [where seen = "insert (childName cp f) seen" and items = "items @ [entryFor cp f]"]
    by (simp add: loop_Cons)
qed

lemma loop_grows:
  "length items \<le> length (snd (loop cp fs (seen, items)))"
proof (induction fs arbitrary: seen items)
  case Nil
  then show ?case by simp
next
  case (Cons f fs)
  show ?case
    using Cons.IH [where seen = seen and items = items]
      Cons.IH [where seen = "insert (childName cp f) seen" and items = "items @ [entryFor cp f]"]
    by (simp add: loop_Cons)
qed

lemma loop_pushes:
  "f \<in> set fs \<Longrightarrow> childName cp f \<noteq> [] \<Longrightarrow> childName cp f \<notin> seen \<Longrightarrow>
   length items < length (snd (loop cp fs (seen, items)))"
proof (induction fs arbitrary: seen items)
  case Nil
  then show ?case by simp
next
  case (Cons g fs)
  show ?case
  proof (cases "childName cp g = [] \<or> childName cp g \<in> seen")
    case True
    with Cons.prems have "f \<in> set fs" by auto
    from Cons.IH [OF this Cons.prems(2,3)] True show ?thesis by (simp only: loop_Cons if_True)
  next
    case False
    then show ?thesis
      using loop_grows [where items = "items @ [entryFor cp g]" and cp = cp and fs = fs
          and seen = "insert (childName cp g) seen"]
      by (simp add: loop_Cons)
  qed
qed

lemma loop_extends: "\<exists>ys. snd (loop cp fs (seen, items)) = items @ ys"
proof (induction fs arbitrary: seen items)
  case Nil
  then show ?case by simp
next
  case (Cons f fs)
  show ?case
  proof (cases "childName cp f = [] \<or> childName cp f \<in> seen")
    case True
    then show ?thesis using Cons.IH [where seen = seen and items = items]
      by (simp only: loop_Cons if_True)
  next
    case False
    from Cons.IH [where seen = "insert (childName cp f) seen" and items = "items @ [entryFor cp f]"]
    obtain ys where "snd (loop cp fs (insert (childName cp f) seen, items @ [entryFor cp f]))
        = items @ entryFor cp f # ys"
      by auto
    with False show ?thesis by (simp only: loop_Cons if_False) blast
  qed
qed

lemma loop_keeps: "e \<in> set items \<Longrightarrow> e \<in> set (snd (loop cp fs (seen, items)))"
  using loop_extends [of cp fs seen items] by auto

lemma loop_covers:
  "f \<in> set fs \<Longrightarrow> childName cp f \<noteq> [] \<Longrightarrow>
   childName cp f \<in> seen \<or> childName cp f \<in> name ` set (snd (loop cp fs (seen, items)))"
proof (induction fs arbitrary: seen items)
  case Nil
  then show ?case by simp
next
  case (Cons g fs)
  show ?case
  proof (cases "childName cp g = [] \<or> childName cp g \<in> seen")
    case True
    show ?thesis
    proof (cases "f = g")
      case True
      with \<open>childName cp g = [] \<or> childName cp g \<in> seen\<close> Cons.prems show ?thesis by simp
    next
      case False
      with Cons.prems have "f \<in> set fs" by simp
      from Cons.IH [OF this Cons.prems(2)] True show ?thesis by (simp only: loop_Cons if_True)
    qed
  next
    case False
    let ?st = "(insert (childName cp g) seen, items @ [entryFor cp g])"
    have g: "childName cp g \<in> name ` set (snd (loop cp fs ?st))"
      using loop_keeps [of "entryFor cp g" "items @ [entryFor cp g]" cp fs "insert (childName cp g) seen"]
      by force
    show ?thesis
    proof (cases "f = g")
      case True
      with g False show ?thesis by (simp only: loop_Cons if_False) simp
    next
      case f: False
      with Cons.prems have "f \<in> set fs" by simp
      from Cons.IH [OF this Cons.prems(2), where seen = "insert (childName cp g) seen"
          and items = "items @ [entryFor cp g]"] g False
      show ?thesis by (simp only: loop_Cons if_False) auto
    qed
  qed
qed

lemma loop_append: "loop cp (xs @ ys) st = loop cp ys (loop cp xs st)"
proof (induction xs arbitrary: st)
  case Nil
  then show ?case by (cases st) simp
next
  case (Cons x xs)
  obtain seen items where st: "st = (seen, items)" by (cases st)
  show ?case unfolding st using Cons.IH by (simp add: loop_Cons)
qed

lemma loop_single: "\<exists>ys. snd (loop cp [f] (seen, items)) = items @ ys \<and> length ys \<le> 1"
  by (simp add: loop_Cons)

lemma entryFor_cases:
  "entryFor cp f =
     (if tl (split CHR ''/'' (slice (Key f) (length cp))) \<noteq> []
      then \<lparr>type = Folder, name = childName cp f,
            fullPath = cp @ childName cp f @ ''/'', item = None\<rparr>
      else \<lparr>type = File, name = childName cp f, fullPath = Key f, item = Some f\<rparr>)"
  unfolding entryFor_def by (simp only: length_greater_0_conv)

subsection \<open>The grouper\<close>

lemma find_filter: "find P (filter Q xs) = find (\<lambda>x. Q x \<and> P x) xs"
  by (induction xs) auto

lemma find_SomeD: "find P xs = Some x \<Longrightarrow> x \<in> set xs \<and> P x"
  by (induction xs) (auto split: if_splits)

lemma displayItems_member:
  assumes "e \<in> set (displayItems cp fs)"
  shows "\<exists>f. find (\<lambda>g. startsWith (Key g) cp \<and> childName cp g = name e) fs = Some f
          \<and> e = entryFor cp f \<and> f \<in> set fs \<and> startsWith (Key f) cp \<and> name e \<noteq> []"
proof -
  from assms loop_member [of e cp "filtered cp fs" "{}" "[]"]
  obtain f where f: "find (\<lambda>g. childName cp g = name e) (filtered cp fs) = Some f"
      "e = entryFor cp f" "name e \<noteq> []"
    by (auto simp: displayItems_def)
  from f(1) have "find (\<lambda>g. startsWith (Key g) cp \<and> childName cp g = name e) fs = Some f"
    by (simp add: filtered_def find_filter)
  moreover from find_SomeD [OF this] have "f \<in> set fs" "startsWith (Key f) cp" by blast+
  ultimately show ?thesis using f(2,3) by blast
qed

lemma startsWith_entryFor:
  "startsWith (Key f) cp \<Longrightarrow> startsWith (fullPath (entryFor cp f)) cp"
  by (simp add: entryFor_def startsWith_def)

lemma displayItems_Nil [simp]: "displayItems cp [] = []"
  by (simp add: displayItems_def filtered_def)

lemma listing_at_root:
  "displayItems '''' scenario_files =
     [\<lparr>type = Folder, name = ''a'', fullPath = ''a/'', item = None\<rparr>,
      \<lparr>type = File, name = ''d.txt'', fullPath = ''d.txt'',
       item = Some \<lparr>Key = ''d.txt'', Size = 5242880, LastModified = ''2024-01-03T00:00:00Z''\<rparr>\<rparr>]"
  by (simp add: scenario_files_def displayItems_def filtered_def startsWith_def slice_def
      loop_Cons childName_def entryFor_def)

lemma listing_at_a:
  "displayItems ''a/'' scenario_files =
     [\<lparr>type = File, name = ''b.txt'', fullPath = ''a/b.txt'',
       item = Some \<lparr>Key = ''a/b.txt'', Size = 512, LastModified = ''2024-01-01T00:00:00Z''\<rparr>\<rparr>,
      \<lparr>type = File, name = ''c.txt'', fullPath = ''a/c.txt'',
       item = Some \<lparr>Key = ''a/c.txt'', Size = 2048, LastModified = ''2024-01-02T00:00:00Z''\<rparr>\<rparr>]"
  by (simp add: scenario_files_def displayItems_def filtered_def startsWith_def slice_def
      loop_Cons childName_def entryFor_def)

text \<open>
  C1. For every list of records and every current path, every entry the grouper
  produces, folder or file, has a \<open>fullPath\<close> that starts with the current path.
\<close>

theorem fullPath_startsWith_currentPath:
  "\<forall>e \<in> set (displayItems cp fs). startsWith (fullPath e) cp"
proof
  fix e assume "e \<in> set (displayItems cp fs)"
  from displayItems_member [OF this] obtain f where "e = entryFor cp f" "startsWith (Key f) cp"
    by blast
  then show "startsWith (fullPath e) cp" by (simp add: startsWith_entryFor)
qed

theorem fullPath_startsWith_currentPath_witness:
  "\<lparr>type = File, name = ''b.txt'', fullPath = ''a/b.txt'', item = Some (scenario_files ! 0)\<rparr>
     \<in> set (displayItems ''a/'' scenario_files) \<and>
   startsWith ''a/b.txt'' ''a/''"
proof -
  let ?b = "\<lparr>type = File, name = ''b.txt'', fullPath = ''a/b.txt'',
             item = Some (scenario_files ! 0)\<rparr>"
  have "?b \<in> set (displayItems ''a/'' scenario_files)"
    by (simp add: listing_at_a) (simp add: scenario_files_def)
  with fullPath_startsWith_currentPath [of "''a/''" scenario_files] show ?thesis by auto
qed

lemma distinct_map_index:
  "distinct (map k xs) \<Longrightarrow> i < length xs \<Longrightarrow> j < length xs \<Longrightarrow> k (xs ! j) = k (xs ! i) \<Longrightarrow> j = i"
  by (metis distinct_conv_nth length_map nth_map)

text \<open>
  C2. For records with pairwise distinct keys, the \<open>fullPath\<close> of every folder entry
  ends with a slash, and the \<open>fullPath\<close> of every file entry is the key of exactly one
  record of the input, at one index only, and that record is the entry's \<open>item\<close>.
\<close>

theorem folder_slash_file_key:
  assumes "distinct (map Key fs)" and "e \<in> set (displayItems cp fs)"
  shows "(type e = Folder \<longrightarrow> endsWithSlash (fullPath e)) \<and>
         (type e = File \<longrightarrow>
            (\<exists>i<length fs. item e = Some (fs ! i) \<and> Key (fs ! i) = fullPath e \<and>
               (\<forall>j<length fs. Key (fs ! j) = fullPath e \<longrightarrow> j = i)))"
proof -
  from displayItems_member [OF assms(2)] obtain f where f: "e = entryFor cp f" "f \<in> set fs"
    by blast
  from f(2) obtain i where i: "i < length fs" "fs ! i = f" by (auto simp: in_set_conv_nth)
  have folder: "type e = Folder \<longrightarrow> endsWithSlash (fullPath e)"
    using f(1) by (simp add: entryFor_def endsWithSlash_def)
  have "type e = File \<longrightarrow> item e = Some f \<and> Key f = fullPath e"
    using f(1) by (simp add: entryFor_def)
  with i distinct_map_index [OF assms(1) i(1)] folder show ?thesis by metis
qed

theorem folder_slash_file_key_witness:
  "distinct (map Key scenario_files) \<and>
   \<lparr>type = Folder, name = ''a'', fullPath = ''a/'', item = None\<rparr>
     \<in> set (displayItems '''' scenario_files) \<and>
   endsWithSlash ''a/'' \<and>
   \<lparr>type = File, name = ''d.txt'', fullPath = ''d.txt'', item = Some (scenario_files ! 2)\<rparr>
     \<in> set (displayItems '''' scenario_files) \<and>
   (\<exists>i. i < length scenario_files \<and> scenario_files ! i = scenario_files ! 2 \<and>
      Key (scenario_files ! i) = ''d.txt'')"
proof -
  let ?a = "\<lparr>type = Folder, name = ''a'', fullPath = ''a/'', item = None\<rparr>"
  let ?d = "\<lparr>type = File, name = ''d.txt'', fullPath = ''d.txt'',
             item = Some (scenario_files ! 2)\<rparr>"
  have d: "distinct (map Key scenario_files)" by (simp add: scenario_files_def)
  have a_in: "?a \<in> set (displayItems '''' scenario_files)" by (simp add: listing_at_root)
  have d_in: "?d \<in> set (displayItems '''' scenario_files)"
    by (simp add: listing_at_root) (simp add: scenario_files_def)
  from folder_slash_file_key [OF d a_in] have "endsWithSlash ''a/''" by simp
  moreover have "type ?d = File" by simp
  with folder_slash_file_key [OF d d_in] obtain i where i: "i < length scenario_files"
      "item ?d = Some (scenario_files ! i)" "Key (scenario_files ! i) = fullPath ?d"
    by blast
  from i(2) have "scenario_files ! i = scenario_files ! 2" by simp
  moreover from i(3) have "Key (scenario_files ! i) = ''d.txt''" by simp
  ultimately show ?thesis using d a_in d_in i(1) by blast
qed

text \<open>
  C3. The names of the entries of one invocation are pairwise distinct, and the first
  occurrence wins: every entry is the one derived from the first record, in input order,
  that passes the filter and yields the entry's name; and every record that passes the
  filter with a non-empty child name has its name among the entries.
\<close>

theorem names_distinct_first_wins:
  "distinct (map name (displayItems cp fs)) \<and>
   (\<forall>e \<in> set (displayItems cp fs).
      \<exists>f. find (\<lambda>g. startsWith (Key g) cp \<and> childName cp g = name e) fs = Some f
          \<and> e = entryFor cp f) \<and>
   (\<forall>f \<in> set fs. startsWith (Key f) cp \<and> childName cp f \<noteq> [] \<longrightarrow>
      childName cp f \<in> name ` set (displayItems cp fs))"
proof (intro conjI ballI impI)
  show "distinct (map name (displayItems cp fs))"
    using loop_distinct [of "[]" "{}" cp "filtered cp fs"] by (simp add: displayItems_def)
next
  fix e assume "e \<in> set (displayItems cp fs)"
  from displayItems_member [OF this]
  show "\<exists>f. find (\<lambda>g. startsWith (Key g) cp \<and> childName cp g = name e) fs = Some f
          \<and> e = entryFor cp f"
    by blast
next
  fix f assume "f \<in> set fs" and "startsWith (Key f) cp \<and> childName cp f \<noteq> []"
  then have "f \<in> set (filtered cp fs)" "childName cp f \<noteq> []" by (simp_all add: filtered_def)
  from loop_covers [OF this, of "{}" "[]"]
  show "childName cp f \<in> name ` set (displayItems cp fs)" by (simp add: displayItems_def)
qed

theorem names_distinct_first_wins_witness:
  "\<lparr>type = Folder, name = ''a'', fullPath = ''a/'', item = None\<rparr>
     \<in> set (displayItems '''' scenario_files) \<and>
   distinct (map name (displayItems '''' scenario_files)) \<and>
   (\<exists>f. find (\<lambda>g. startsWith (Key g) '''' \<and> childName '''' g = ''a'') scenario_files = Some f
      \<and> \<lparr>type = Folder, name = ''a'', fullPath = ''a/'', item = None\<rparr> = entryFor '''' f) \<and>
   scenario_files ! 1 \<in> set scenario_files \<and>
   startsWith (Key (scenario_files ! 1)) '''' \<and> childName '''' (scenario_files ! 1) = ''a'' \<and>
   ''a'' \<in> name ` set (displayItems '''' scenario_files)"
proof -
  let ?a = "\<lparr>type = Folder, name = ''a'', fullPath = ''a/'', item = None\<rparr>"
  have 0: "?a \<in> set (displayItems '''' scenario_files)" by (simp add: listing_at_root)
  have 1: "scenario_files ! 1 \<in> set scenario_files" by (simp add: scenario_files_def)
  have 2: "startsWith (Key (scenario_files ! 1)) ''''" by (simp add: startsWith_def)
  have 3: "childName '''' (scenario_files ! 1) = ''a''"
    by (simp add: scenario_files_def childName_def slice_def)
  note first_wins = names_distinct_first_wins [of "''''" scenario_files]
  from first_wins have "distinct (map name (displayItems '''' scenario_files))" by blast
  moreover from first_wins 0
  have "\<exists>f. find (\<lambda>g. startsWith (Key g) '''' \<and> childName '''' g = name ?a) scenario_files
        = Some f \<and> ?a = entryFor '''' f"
    by blast
  then have "\<exists>f. find (\<lambda>g. startsWith (Key g) '''' \<and> childName '''' g = ''a'') scenario_files
        = Some f \<and> ?a = entryFor '''' f"
    by simp
  moreover from first_wins 1 2 3 have "''a'' \<in> name ` set (displayItems '''' scenario_files)"
    by (metis list.discI)
  ultimately show ?thesis using 0 1 2 3 by blast
qed

text \<open>
  C4. Scenario A: for the records with keys \<open>a/b.txt\<close>, \<open>a/c.txt\<close> and \<open>d.txt\<close> at the
  root, the grouper produces the folder \<open>a\<close> and then the file \<open>d.txt\<close>, in the order of
  the first occurrence in the input.
\<close>

theorem scenario_A:
  "displayItems ''''
     [\<lparr>Key = ''a/b.txt'', Size = s1, LastModified = m1\<rparr>,
      \<lparr>Key = ''a/c.txt'', Size = s2, LastModified = m2\<rparr>,
      \<lparr>Key = ''d.txt'', Size = s3, LastModified = m3\<rparr>]
   = [\<lparr>type = Folder, name = ''a'', fullPath = ''a/'', item = None\<rparr>,
      \<lparr>type = File, name = ''d.txt'', fullPath = ''d.txt'',
       item = Some \<lparr>Key = ''d.txt'', Size = s3, LastModified = m3\<rparr>\<rparr>]"
  by (simp add: displayItems_def filtered_def startsWith_def slice_def loop_Cons childName_def entryFor_def)

subsection \<open>The breadcrumb\<close>

lemma pathSegments_split: "pathSegments cp = filter (\<lambda>s. s \<noteq> []) (split CHR ''/'' cp)"
  by (simp add: pathSegments_def)

lemma join_snoc: "xs \<noteq> [] \<Longrightarrow> join sep (xs @ [x]) = join sep xs @ sep @ x"
  by (induction sep xs rule: join.induct) auto

lemma length_breadcrumb: "length (breadcrumb cp) = length (pathSegments cp)"
  by (simp add: breadcrumb_def)

lemma breadcrumb_nth:
  "i < length (pathSegments cp) \<Longrightarrow>
   breadcrumb cp ! i = (pathSegments cp ! i, join ''/'' (take (i + 1) (pathSegments cp)) @ ''/'')"
  by (simp add: breadcrumb_def)

lemma breadcrumb_Nil [simp]: "breadcrumb [] = []"
  by (simp add: breadcrumb_def pathSegments_def)

text \<open>
  C5. For every current path, the labels of the breadcrumb are the non-empty pieces of
  the path split at the slashes, and the path attached to the piece at index \<open>i\<close> is the
  first \<open>i + 1\<close> pieces joined with slashes, followed by a slash: a running prefix,
  each path being the one before it followed by the next piece and a slash.
\<close>

theorem breadcrumb_segments:
  "map fst (breadcrumb cp) = filter (\<lambda>s. s \<noteq> []) (split CHR ''/'' cp) \<and>
   (\<forall>i < length (filter (\<lambda>s. s \<noteq> []) (split CHR ''/'' cp)).
      snd (breadcrumb cp ! i)
        = join ''/'' (take (i + 1) (filter (\<lambda>s. s \<noteq> []) (split CHR ''/'' cp))) @ ''/'') \<and>
   (\<forall>i. Suc i < length (breadcrumb cp) \<longrightarrow>
      snd (breadcrumb cp ! Suc i) = snd (breadcrumb cp ! i) @ fst (breadcrumb cp ! Suc i) @ ''/'')"
proof (intro conjI allI impI)
  have "map fst (breadcrumb cp) = map ((!) (pathSegments cp)) [0..<length (pathSegments cp)]"
    by (simp add: breadcrumb_def comp_def)
  then show "map fst (breadcrumb cp) = filter (\<lambda>s. s \<noteq> []) (split CHR ''/'' cp)"
    by (simp only: map_nth pathSegments_split)
next
  fix i assume "i < length (filter (\<lambda>s. s \<noteq> []) (split CHR ''/'' cp))"
  then have "i < length (pathSegments cp)" by (simp only: pathSegments_split)
  from breadcrumb_nth [OF this]
  show "snd (breadcrumb cp ! i)
      = join ''/'' (take (i + 1) (filter (\<lambda>s. s \<noteq> []) (split CHR ''/'' cp))) @ ''/''"
    by (simp only: pathSegments_split snd_conv)
next
  fix i assume "Suc i < length (breadcrumb cp)"
  then have i: "Suc i < length (pathSegments cp)" by (simp only: length_breadcrumb)
  then have "take (Suc i + 1) (pathSegments cp)
      = take (Suc i) (pathSegments cp) @ [pathSegments cp ! Suc i]"
    by (simp add: take_Suc_conv_app_nth)
  moreover from i have "take (Suc i) (pathSegments cp) \<noteq> []" by auto
  ultimately have "join ''/'' (take (Suc i + 1) (pathSegments cp))
      = join ''/'' (take (Suc i) (pathSegments cp)) @ ''/'' @ pathSegments cp ! Suc i"
    using join_snoc [of "take (Suc i) (pathSegments cp)" "''/''" "pathSegments cp ! Suc i"]
    by simp
  with breadcrumb_nth [OF i] breadcrumb_nth [of i cp] i
  show "snd (breadcrumb cp ! Suc i) = snd (breadcrumb cp ! i) @ fst (breadcrumb cp ! Suc i) @ ''/''"
    by simp
qed

theorem breadcrumb_segments_witness:
  "1 < length (filter (\<lambda>s. s \<noteq> []) (split CHR ''/'' ''a/b/'')) \<and>
   snd (breadcrumb ''a/b/'' ! 1)
     = join ''/'' (take (1 + 1) (filter (\<lambda>s. s \<noteq> []) (split CHR ''/'' ''a/b/''))) @ ''/'' \<and>
   Suc 0 < length (breadcrumb ''a/b/'') \<and>
   snd (breadcrumb ''a/b/'' ! Suc 0)
     = snd (breadcrumb ''a/b/'' ! 0) @ fst (breadcrumb ''a/b/'' ! Suc 0) @ ''/'' \<and>
   breadcrumb ''a/b/'' = [(''a'', ''a/''), (''b'', ''a/b/'')]"
proof -
  have 1: "1 < length (filter (\<lambda>s. s \<noteq> []) (split CHR ''/'' ''a/b/''))" by simp
  have 2: "Suc 0 < length (breadcrumb ''a/b/'')" by (simp add: breadcrumb_def pathSegments_def)
  have 3: "breadcrumb ''a/b/'' = [(''a'', ''a/''), (''b'', ''a/b/'')]"
    by (simp add: breadcrumb_def pathSegments_def upt_rec [of 0] upt_rec [of 1] upt_rec [of 2] numeral_2_eq_2)
  from breadcrumb_segments [of "''a/b/''"] 1 2 3 show ?thesis by blast
qed

text \<open>
  C6. The byte-size formatting gives \<open>512 B\<close> for 512, \<open>2.0 KB\<close> for 2048 and
  \<open>5.0 MB\<close> for 5242880.
\<close>

theorem formatSize_examples:
  "formatSize 512 = ''512 B'' \<and> formatSize 2048 = ''2.0 KB'' \<and> formatSize 5242880 = ''5.0 MB''"
  by code_simp


subsection \<open>The component\<close>

text \<open>
  C7. When the fetch on mount fails, by a network error or by a body that is not JSON,
  the failure is logged, \<open>loading\<close> is cleared, the records stay the empty list, no
  further fetch is issued, and the view is the listing with no entry.
\<close>

theorem fetch_failure_shows_empty_listing:
  "(let s = settle (NetworkError err) (mount initial)
    in console s = [(''Failed to fetch files:'', err)] \<and> \<not> loading s \<and> files s = []
       \<and> fetches s = fetches (mount initial) \<and> fetches s = 1 \<and> render s = Listing [] []) \<and>
   (let s = settle (NotJson err) (mount initial)
    in console s = [(''Failed to fetch files:'', err)] \<and> \<not> loading s \<and> files s = []
       \<and> fetches s = fetches (mount initial) \<and> fetches s = 1 \<and> render s = Listing [] [])"
  by (simp add: Let_def initial_def mount_def render_def grouper_def)

text \<open>
  The loop by itself does depend on the set it starts from: on a set that already holds
  every child name it pushes nothing. The declarations are what makes one invocation
  independent of the one before.
\<close>

lemma loop_reads_seen:
  "snd (loop '''' scenario_files ({''a'', ''d.txt''}, [])) = [] \<and>
   snd (loop '''' scenario_files ({}, [])) \<noteq> []"
  by (simp add: scenario_files_def loop_Cons childName_def entryFor_def slice_def)



text \<open>
  C9. For every record list and every current path, slash-terminated or not, the
  grouper produces at most as many entries as there are records, and one more record
  at the end adds at most one entry.
\<close>

theorem entries_at_most_records:
  "length (displayItems cp fs) \<le> length fs \<and>
   (\<exists>ys. displayItems cp (fs @ [f]) = displayItems cp fs @ ys \<and> length ys \<le> 1)"
proof
  have "length (displayItems cp fs) \<le> length (filtered cp fs)"
    using loop_length [of cp "filtered cp fs" "{}" "[]"] by (simp add: displayItems_def)
  also have "\<dots> \<le> length fs" by (simp add: filtered_def)
  finally show "length (displayItems cp fs) \<le> length fs" .
next
  obtain seen items where st: "loop cp (filtered cp fs) ({}, []) = (seen, items)"
    by (cases "loop cp (filtered cp fs) ({}, [])")
  show "\<exists>ys. displayItems cp (fs @ [f]) = displayItems cp fs @ ys \<and> length ys \<le> 1"
  proof (cases "startsWith (Key f) cp")
    case True
    then have "displayItems cp (fs @ [f]) = snd (loop cp [f] (seen, items))"
      by (simp add: displayItems_def filtered_def loop_append st [unfolded filtered_def])
    with loop_single [of cp f seen items] st show ?thesis by (simp add: displayItems_def)
  next
    case False
    then have "displayItems cp (fs @ [f]) = displayItems cp fs"
      by (simp add: displayItems_def filtered_def)
    then show ?thesis by simp
  qed
qed

text \<open>
  C10. When no key has two slashes in a row or a slash at its end, navigating into a
  folder entry the grouper produced shows at least one entry.
\<close>

theorem folder_not_empty:
  assumes keys: "\<forall>f \<in> set fs. \<not> hasDoubleSlash (Key f) \<and> \<not> endsWithSlash (Key f)"
      and e: "e \<in> set (displayItems cp fs)" and folder: "type e = Folder"
  shows "displayItems (fullPath e) fs \<noteq> []"
proof -
  from displayItems_member [OF e] obtain f where f: "e = entryFor cp f" "f \<in> set fs"
      "startsWith (Key f) cp" "name e \<noteq> []"
    by blast
  let ?rest = "slice (Key f) (length cp)"
  from f(1) folder have tl: "tl (split CHR ''/'' ?rest) \<noteq> []"
    by (auto simp: entryFor_cases split: if_splits)
  from f(1) tl have path: "fullPath e = cp @ childName cp f @ ''/''"
    by (simp add: entryFor_cases)
  from tl_split_decomp [OF tl] obtain r where "?rest = childName cp f @ CHR ''/'' # r"
    by (auto simp: childName_def)
  moreover from f(3) have "Key f = cp @ ?rest"
    by (metis append_take_drop_id slice_def startsWith_def)
  ultimately have key: "Key f = fullPath e @ r" using path by simp
  from keys f(2) have nds: "\<not> hasDoubleSlash (Key f)" and nes: "\<not> endsWithSlash (Key f)"
    by blast+
  have "r \<noteq> []"
  proof
    assume "r = []"
    with key path have "endsWithSlash (Key f)" by (simp add: endsWithSlash_def)
    with nes show False ..
  qed
  then obtain c r' where r: "r = c # r'" by (cases r) auto
  have "c \<noteq> CHR ''/''"
  proof
    assume "c = CHR ''/''"
    with key path r have "Key f = (cp @ childName cp f) @ CHR ''/'' # CHR ''/'' # r'" by simp
    with hasDoubleSlash_append [of "cp @ childName cp f" r'] have "hasDoubleSlash (Key f)"
      by simp
    with nds show False ..
  qed
  with key r have child: "childName (fullPath e) f \<noteq> []"
    by (simp add: childName_def slice_def)
  from key have "startsWith (Key f) (fullPath e)" by (simp add: startsWith_def)
  with f(2) have "f \<in> set (filtered (fullPath e) fs)" by (simp add: filtered_def)
  from loop_pushes [OF this child, of "{}" "[]"] show ?thesis
    by (auto simp: displayItems_def)
qed

theorem folder_not_empty_witness:
  "list_all (\<lambda>f. \<not> hasDoubleSlash (Key f) \<and> \<not> endsWithSlash (Key f)) scenario_files \<and>
   \<lparr>type = Folder, name = ''a'', fullPath = ''a/'', item = None\<rparr>
     \<in> set (displayItems '''' scenario_files) \<and>
   displayItems ''a/'' scenario_files \<noteq> []"
proof -
  let ?a = "\<lparr>type = Folder, name = ''a'', fullPath = ''a/'', item = None\<rparr>"
  have 1: "list_all (\<lambda>f. \<not> hasDoubleSlash (Key f) \<and> \<not> endsWithSlash (Key f)) scenario_files"
    by (simp add: scenario_files_def endsWithSlash_def)
  then have keys: "\<forall>f \<in> set scenario_files. \<not> hasDoubleSlash (Key f) \<and> \<not> endsWithSlash (Key f)"
    by (simp only: list_all_iff)
  have 2: "?a \<in> set (displayItems '''' scenario_files)" by (simp add: listing_at_root)
  have 3: "type ?a = Folder" by simp
  from folder_not_empty [OF keys 2 3] 1 2 show ?thesis by simp
qed

end
